theory Spec2Isabelle
  imports Main "HOL-Library.AList"
begin

section \<open>Texts and lines (client.ts)\<close>

text \<open>
  A text is a JavaScript string, modelled as a \<open>char list\<close>; the line separator is the
  single character \<open>\n\<close>.
\<close>

definition NL :: char where
  "NL = CHR 0x0A"

text \<open>\<^verbatim>\<open>value.split('\n')\<close>: always at least one element, the last one possibly empty.\<close>

fun split_nl :: "string \<Rightarrow> string list" where
  "split_nl [] = [[]]"
| "split_nl (c # cs) =
     (if c = NL then [] # split_nl cs
      else (case split_nl cs of [] \<Rightarrow> [[c]] | l # ls \<Rightarrow> (c # l) # ls))"

text \<open>\<^verbatim>\<open>array.join('\n')\<close>.\<close>

fun join_nl :: "string list \<Rightarrow> string" where
  "join_nl [] = []"
| "join_nl [l] = l"
| "join_nl (l # ls) = l @ [NL] @ join_nl ls"

text \<open>
  \<^verbatim>\<open>function splitLines(value) {
    const lines = value.split('\n');
    if (lines.length && lines[lines.length - 1] === '') lines.pop();
    return lines; }\<close>
\<close>

definition splitLines :: "string \<Rightarrow> string list" where
  "splitLines v =
     (let ls = split_nl v
      in if ls \<noteq> [] \<and> last ls = [] then butlast ls else ls)"

section \<open>Patch operations and their planning\<close>

text \<open>
  \<^verbatim>\<open>type PatchOp = { type: 'remove'; index; count } | { type: 'insert'; index; lines }\<close>
\<close>

datatype PatchOp =
    Remove (index: nat) (count: nat)
  | Insert (index: nat) (lines: "string list")

text \<open>A change object of the line diff: \<^verbatim>\<open>{ value, added?, removed? }\<close>.\<close>

record Change =
  added :: bool
  removed :: bool
  cvalue :: string

subsection \<open>The line diff of the imported package\<close>

datatype tag = Common | Added | Removed

text \<open>
  A text is cut into line tokens, each keeping its terminator; a text that ends with the
  terminator has no empty last token.
\<close>

fun tokenize :: "string \<Rightarrow> string list" where
  "tokenize [] = []"
| "tokenize (c # cs) =
     (if c = NL then [c] # tokenize cs
      else (case tokenize cs of [] \<Rightarrow> [[c]] | t # ts \<Rightarrow> (c # t) # ts))"

fun lcs_length :: "string list \<Rightarrow> string list \<Rightarrow> nat" where
  "lcs_length [] ys = 0"
| "lcs_length (x # xs) [] = 0"
| "lcs_length (x # xs) (y # ys) =
     (if x = y then Suc (lcs_length xs ys)
      else max (lcs_length xs (y # ys)) (lcs_length (x # xs) ys))"

text \<open>
  A longest-common-subsequence alignment of two token sequences. Where both a removal and
  an addition keep a longest common subsequence reachable, the removal is reported first.
\<close>

fun edit_script :: "string list \<Rightarrow> string list \<Rightarrow> (tag \<times> string) list" where
  "edit_script [] ys = map (Pair Added) ys"
| "edit_script (x # xs) [] = map (Pair Removed) (x # xs)"
| "edit_script (x # xs) (y # ys) =
     (if x = y then (Common, x) # edit_script xs ys
      else if lcs_length (x # xs) ys \<le> lcs_length xs (y # ys)
           then (Removed, x) # edit_script xs (y # ys)
           else (Added, y) # edit_script (x # xs) ys)"

definition change_of :: "tag \<Rightarrow> string \<Rightarrow> Change" where
  "change_of t v = \<lparr>added = (t = Added), removed = (t = Removed), cvalue = v\<rparr>"

definition tag_of :: "Change \<Rightarrow> tag" where
  "tag_of c = (if added c then Added else if removed c then Removed else Common)"

text \<open>Neighbouring tokens of the same kind are joined into one run.\<close>

fun add_token :: "tag \<Rightarrow> string \<Rightarrow> Change list \<Rightarrow> Change list" where
  "add_token t v [] = [change_of t v]"
| "add_token t v (c # cs) =
     (if tag_of c = t then c\<lparr>cvalue := v @ cvalue c\<rparr> # cs
      else change_of t v # c # cs)"

fun components :: "(tag \<times> string) list \<Rightarrow> Change list" where
  "components [] = []"
| "components ((t, v) # rest) = add_token t v (components rest)"

text \<open>
  Modelled from the spec: \<^verbatim>\<open>diffLines\<close> is imported from the package \<^verbatim>\<open>diff\<close>, which is
  not part of the sources. The spec describes it as a line-granular alignment (longest
  common subsequence style) between the two texts, producing an ordered sequence of runs,
  each tagged unchanged, added or removed. The value of a run is the text of its lines,
  terminators included; a replaced region is reported as its removed run followed by its
  added run, the convention of the package.
\<close>

definition diffLines :: "string \<Rightarrow> string \<Rightarrow> Change list" where
  "diffLines oldStr newStr = components (edit_script (tokenize oldStr) (tokenize newStr))"

subsection \<open>buildOps\<close>

text \<open>
  \<^verbatim>\<open>for (const part of changes) {
    const lines = splitLines(part.value);
    if (part.added)   { if (lines.length) ops.push({ type: 'insert', index, lines }); continue; }
    if (part.removed) { if (lines.length) ops.push({ type: 'remove', index, count: lines.length });
                        index += lines.length; continue; }
    index += lines.length; }\<close>
\<close>

fun buildOps_loop :: "Change list \<Rightarrow> nat \<Rightarrow> PatchOp list \<Rightarrow> PatchOp list" where
  "buildOps_loop [] i ops = ops"
| "buildOps_loop (part # changes) i ops =
     (let ls = splitLines (cvalue part)
      in if added part then
           buildOps_loop changes i (if ls \<noteq> [] then ops @ [Insert i ls] else ops)
         else if removed part then
           buildOps_loop changes (i + length ls)
             (if ls \<noteq> [] then ops @ [Remove i (length ls)] else ops)
         else buildOps_loop changes (i + length ls) ops)"

definition buildOps :: "string \<Rightarrow> string \<Rightarrow> PatchOp list" where
  "buildOps originalText newText = buildOps_loop (diffLines originalText newText) 0 []"

subsection \<open>groupOps\<close>

text \<open>\<^verbatim>\<open>type OpGroup = { removeCount: number; insertLines: string[] }\<close>\<close>

record OpGroup =
  removeCount :: nat
  insertLines :: "string list"

text \<open>
  The \<^verbatim>\<open>Map<number, OpGroup>\<close> is an association list in insertion order: \<^verbatim>\<open>groups.set\<close> on a
  key already present keeps the key's place, as \<^const>\<open>AList.update\<close> does.
  \<^verbatim>\<open>const group = groups.get(op.index) ?? { removeCount: 0, insertLines: [] };
  if (op.type === 'remove') group.removeCount += op.count;
  else group.insertLines.push(...op.lines);
  groups.set(op.index, group);\<close>
\<close>

definition groupOps_step :: "(nat \<times> OpGroup) list \<Rightarrow> PatchOp \<Rightarrow> (nat \<times> OpGroup) list" where
  "groupOps_step groups op =
     (let group = (case map_of groups (index op) of
                     Some g \<Rightarrow> g
                   | None \<Rightarrow> \<lparr>removeCount = 0, insertLines = []\<rparr>);
          group' = (case op of
                      Remove i c \<Rightarrow> group\<lparr>removeCount := removeCount group + c\<rparr>
                    | Insert i ls \<Rightarrow> group\<lparr>insertLines := insertLines group @ ls\<rparr>)
      in AList.update (index op) group' groups)"

definition groupOps :: "PatchOp list \<Rightarrow> (nat \<times> OpGroup) list" where
  "groupOps ops = foldl groupOps_step [] ops"

text \<open>What one operation contributes to the group of its index.\<close>

fun removedBy :: "PatchOp \<Rightarrow> nat" where
  "removedBy (Remove i c) = c"
| "removedBy (Insert i ls) = 0"

fun insertedBy :: "PatchOp \<Rightarrow> string list" where
  "insertedBy (Remove i c) = []"
| "insertedBy (Insert i ls) = ls"

text \<open>
  The merged group of index \<open>i\<close> as the spec words it: the remove counts of the operations
  at \<open>i\<close> summed, their insert lists concatenated in discovery order.
\<close>

definition mergedGroup :: "nat \<Rightarrow> PatchOp list \<Rightarrow> OpGroup" where
  "mergedGroup i ops =
     \<lparr>removeCount = sum_list (map removedBy (filter (\<lambda>op. index op = i) ops)),
      insertLines = concat (map insertedBy (filter (\<lambda>op. index op = i) ops))\<rparr>"

subsection \<open>applyOps\<close>

text \<open>
  The slow path drives the editor line by line. Its two primitives are kept as steps:
  \<^verbatim>\<open>deleteLines(page, index, count, lines)\<close> and
  \<^verbatim>\<open>insertLines(page, index, insertLines, lines, removedCount)\<close>.
\<close>

datatype step =
    DeleteLines nat nat
  | InsertLines nat "string list" nat

text \<open>\<^verbatim>\<open>const indices = [...groups.keys()].sort((a, b) => b - a);\<close>\<close>

definition sortedIndices :: "(nat \<times> OpGroup) list \<Rightarrow> nat list" where
  "sortedIndices groups = rev (sort (map fst groups))"

text \<open>
  \<^verbatim>\<open>if (group.removeCount > 0) await deleteLines(page, index, group.removeCount, lines);
  if (group.insertLines.length > 0)
    await insertLines(page, index, group.insertLines, lines, group.removeCount);\<close>
\<close>

definition groupSteps :: "nat \<Rightarrow> OpGroup \<Rightarrow> step list" where
  "groupSteps i g =
     (if removeCount g > 0 then [DeleteLines i (removeCount g)] else []) @
     (if insertLines g \<noteq> [] then [InsertLines i (insertLines g) (removeCount g)] else [])"

text \<open>
  \<^verbatim>\<open>for (const index of indices) { const group = groups.get(index)!; ... }\<close>
  The indices are the keys of \<open>groups\<close>, so the lookup does not miss
  (lemma \<open>sortedIndices_lookup\<close>); a miss would throw and end the loop.
\<close>

fun applyOps_loop :: "(nat \<times> OpGroup) list \<Rightarrow> nat list \<Rightarrow> step list" where
  "applyOps_loop groups [] = []"
| "applyOps_loop groups (i # indices) =
     (case map_of groups i of
        None \<Rightarrow> []
      | Some g \<Rightarrow> groupSteps i g @ applyOps_loop groups indices)"

definition applyOps :: "PatchOp list \<Rightarrow> step list" where
  "applyOps ops = (let groups = groupOps ops in applyOps_loop groups (sortedIndices groups))"

subsection \<open>The in-memory line array\<close>

text \<open>
  The simulation of the spec: a step acts on an array of lines, a removal deleting
  \<open>count\<close> lines at \<open>index\<close>, an insertion placing its lines before \<open>index\<close>
  (\<^verbatim>\<open>splice(index, count)\<close> and \<^verbatim>\<open>splice(index, 0, ...lines)\<close>).
\<close>

fun execStep :: "step \<Rightarrow> string list \<Rightarrow> string list" where
  "execStep (DeleteLines i c) arr = take i arr @ drop (i + c) arr"
| "execStep (InsertLines i ls r) arr = take i arr @ ls @ drop i arr"

definition runSteps :: "step list \<Rightarrow> string list \<Rightarrow> string list" where
  "runSteps steps arr = foldl (\<lambda>a s. execStep s a) arr steps"

definition applyOpsArray :: "PatchOp list \<Rightarrow> string list \<Rightarrow> string list" where
  "applyOpsArray ops arr = runSteps (applyOps ops) arr"

text \<open>
  A step meets the array it was planned for: up to the lines it deletes, or up to the
  place it inserts at, the array \<open>cur\<close> of the moment holds the lines of the array \<open>arr\<close>
  the indices were computed on.
\<close>

fun anchored :: "step \<Rightarrow> string list \<Rightarrow> string list \<Rightarrow> bool" where
  "anchored (DeleteLines i c) cur arr =
     (i + c \<le> length cur \<and> take (i + c) cur = take (i + c) arr)"
| "anchored (InsertLines i ls r) cur arr =
     (i \<le> length cur \<and> take i cur = take i arr)"

subsection \<open>Lines of a run sequence\<close>

text \<open>One trailing terminator less.\<close>

definition chomp :: "string \<Rightarrow> string" where
  "chomp t = (if t \<noteq> [] \<and> last t = NL then butlast t else t)"

definition lineToken :: "string \<Rightarrow> bool" where
  "lineToken t = (t \<noteq> [] \<and> NL \<notin> set (butlast t))"

definition closed :: "string \<Rightarrow> bool" where
  "closed t = (t \<noteq> [] \<and> last t = NL)"

text \<open>Every token but the last ends with the terminator.\<close>

fun wellTerminated :: "string list \<Rightarrow> bool" where
  "wellTerminated [] = True"
| "wellTerminated [t] = lineToken t"
| "wellTerminated (t # ts) = (lineToken t \<and> closed t \<and> wellTerminated ts)"

definition oldTokens :: "(tag \<times> string) list \<Rightarrow> string list" where
  "oldTokens s = map snd (filter (\<lambda>p. fst p \<noteq> Added) s)"

definition newTokens :: "(tag \<times> string) list \<Rightarrow> string list" where
  "newTokens s = map snd (filter (\<lambda>p. fst p \<noteq> Removed) s)"

text \<open>
  The lines a run sequence takes from the original and the lines it gives to the target,
  counted as \<^verbatim>\<open>buildOps\<close> counts them.
\<close>

definition oldLines :: "Change list \<Rightarrow> string list" where
  "oldLines cs = concat (map (\<lambda>c. if added c then [] else splitLines (cvalue c)) cs)"

definition newLines :: "Change list \<Rightarrow> string list" where
  "newLines cs =
     concat (map (\<lambda>c. if added c then splitLines (cvalue c)
                       else if removed c then [] else splitLines (cvalue c)) cs)"

text \<open>
  The operations of a plan do not overlap: each starts at or after the lower bound \<open>k\<close>,
  a removal of \<open>c\<close> lines at \<open>i\<close> moves the bound to \<open>i + c\<close>, and the last bound
  stays within \<open>n\<close> lines.
\<close>

fun spaced :: "nat \<Rightarrow> nat \<Rightarrow> PatchOp list \<Rightarrow> bool" where
  "spaced k n [] = (k \<le> n)"
| "spaced k n (Insert i ls # ops) = (k \<le> i \<and> spaced i n ops)"
| "spaced k n (Remove i c # ops) = (k \<le> i \<and> 0 < c \<and> spaced (i + c) n ops)"

section \<open>The fast path (tryInternalPatch)\<close>

text \<open>
  What the client does to the outside world, in the order it does it. The three calls of
  the structured bridge are \<^verbatim>\<open>sb.Page.updateLine(text, i)\<close>, \<^verbatim>\<open>sb.Page.insertLine(text, i)\<close>
  and \<^verbatim>\<open>sb.Page.waitForSave()\<close>.
\<close>

datatype action =
    ReadJson string
  | NewPage
  | Goto string
  | WaitForSelector
  | WaitForTimeout nat
  | UpdateLine string nat
  | InsertLine string nat
  | WaitForSave
  | Click
  | Slow step
  | ClosePage

text \<open>
  \<^verbatim>\<open>const current = (sb.Page.lines || []).map((l) => l?.text ?? '');
  const oldLen = current.length; const newLen = lines.length;
  const min = Math.min(oldLen, newLen);
  for (let i = 0; i < min; i++)
    if (lines[i] !== current[i]) sb.Page.updateLine(lines[i], i);
  if (newLen > oldLen) { for (let i = oldLen; i < newLen; i++) sb.Page.insertLine(lines[i], i); }
  else if (oldLen > newLen) { for (let i = oldLen - 1; i >= newLen; i--) sb.Page.updateLine('', i); }\<close>
\<close>

definition internalPatchCalls :: "string list \<Rightarrow> string list \<Rightarrow> action list" where
  "internalPatchCalls current ls =
     (let oldLen = length current; newLen = length ls; m = min oldLen newLen
      in map (\<lambda>i. UpdateLine (ls ! i) i) (filter (\<lambda>i. ls ! i \<noteq> current ! i) [0..<m]) @
         (if newLen > oldLen then map (\<lambda>i. InsertLine (ls ! i) i) [oldLen..<newLen]
          else if oldLen > newLen then map (\<lambda>i. UpdateLine [] i) (rev [newLen..<oldLen])
          else []))"



section \<open>ScrapboxClient.patch\<close>

text \<open>The page as the JSON endpoint returns it; a field that is missing is \<open>None\<close>.\<close>

record JsonLine =
  jid :: "string option"
  jtext :: "string option"

record PageJson =
  updated :: "nat option"
  jlines :: "JsonLine list option"

text \<open>\<^verbatim>\<open>type LineInfo = { id?: string; text: string }\<close>\<close>

record LineInfo =
  line_id :: "string option"
  line_text :: string

text \<open>
  \<^verbatim>\<open>const lines = Array.isArray(pageJson?.lines) ? pageJson.lines : [];
  return lines.map((line) => ({ id: line.id, text: line.text ?? '' }));\<close>
\<close>

definition extractLines :: "PageJson \<Rightarrow> LineInfo list" where
  "extractLines pageJson =
     map (\<lambda>l. \<lparr>line_id = jid l, line_text = (case jtext l of None \<Rightarrow> [] | Some t \<Rightarrow> t)\<rparr>)
       (case jlines pageJson of None \<Rightarrow> [] | Some ls \<Rightarrow> ls)"

text \<open>\<^verbatim>\<open>return lines.map((l) => l.text ?? '').join('\n');\<close>\<close>

definition linesToText :: "LineInfo list \<Rightarrow> string" where
  "linesToText ls = join_nl (map line_text ls)"

text \<open>
  \<^verbatim>\<open>type PatchOptions = { fuzz?, checkUpdated?, waitMs?, debug?, dryRun? }\<close>; an absent
  flag is false.
\<close>

record PatchOptions =
  fuzz :: "nat option"
  checkUpdated :: bool
  waitMs :: "nat option"
  debug :: bool
  dryRun :: bool

datatype error =
    NotInitialized
  | RequestFailed
  | DiffParseError
  | NoPatchFound
  | PatchApplyFailed
  | ConcurrentModification
  | PageError
  | VerificationFailed

text \<open>
  \<^verbatim>\<open>window.scrapbox\<close> as the page holds it: which of the three functions exist, the texts
  of \<^verbatim>\<open>sb.Page.lines\<close>, and whether a call of the bridge throws (\<open>throwsAt = Some k\<close>: the
  call number \<open>k\<close>, counted from 0, throws, \<^verbatim>\<open>waitForSave\<close> being the last call; the evaluation
  of the script failing as a whole is \<open>Some 0\<close>).
\<close>

record Bridge =
  hasUpdateLine :: bool
  hasInsertLine :: bool
  hasWaitForSave :: bool
  pageLines :: "string option list"
  throwsAt :: "nat option"

text \<open>
  The collaborators of one call of \<^verbatim>\<open>patch\<close>: whether the browser context exists, the
  answer to the n-th request of the page (\<open>None\<close>: the request failed), the two functions
  of the diff package (\<^verbatim>\<open>parsePatch\<close> may throw, \<^verbatim>\<open>applyPatch\<close> returns \<^verbatim>\<open>false\<close> as \<open>None\<close>),
  which steps of the browser throw, and the bridge of the opened page.
\<close>

record 'p World =
  hasContext :: bool
  responses :: "nat \<Rightarrow> PageJson option"
  parsePatch :: "string \<Rightarrow> 'p list option"
  applyPatch :: "string \<Rightarrow> 'p \<Rightarrow> nat \<Rightarrow> string option"
  pageFails :: "action \<Rightarrow> bool"
  scrapbox :: "Bridge option"

text \<open>\<^verbatim>\<open>Promise<string | void>\<close>\<close>

datatype patchResult = Text string | Void

text \<open>
  A computation of the client takes the log of actions so far and returns a value or the
  error thrown, with the log extended.
\<close>

type_synonym 'a io = "action list \<Rightarrow> (error + 'a) \<times> action list"

definition ret :: "'a \<Rightarrow> 'a io" where
  "ret x = (\<lambda>log. (Inr x, log))"

definition throw :: "error \<Rightarrow> 'a io" where
  "throw e = (\<lambda>log. (Inl e, log))"

definition bindIO :: "'a io \<Rightarrow> ('a \<Rightarrow> 'b io) \<Rightarrow> 'b io" where
  "bindIO m f = (\<lambda>log. case m log of (Inl e, log') \<Rightarrow> (Inl e, log') | (Inr x, log') \<Rightarrow> f x log')"

text \<open>A step of the browser: logged, and an error when it throws.\<close>

definition perform :: "'p World \<Rightarrow> action \<Rightarrow> unit io" where
  "perform w a = (\<lambda>log. (if pageFails w a then Inl PageError else Inr (), log @ [a]))"

definition isRead :: "action \<Rightarrow> bool" where
  "isRead a = (case a of ReadJson t \<Rightarrow> True | _ \<Rightarrow> False)"

text \<open>
  \<^verbatim>\<open>private getContext() { if (!this.context) throw new Error('Client is not initialized'); ... }\<close>
\<close>

definition getContext :: "'p World \<Rightarrow> unit io" where
  "getContext w = (if hasContext w then ret () else throw NotInitialized)"

text \<open>
  \<^verbatim>\<open>const ctx = this.getContext();
  const res = await ctx.request.get(...);
  if (!res.ok()) throw new Error(`Request failed: ...`);
  return await res.json();\<close>
\<close>

definition readJson :: "'p World \<Rightarrow> string \<Rightarrow> PageJson io" where
  "readJson w pageTitle =
     bindIO (getContext w) (\<lambda>_ log.
       (case responses w (length (filter isRead log)) of
          None \<Rightarrow> Inl RequestFailed
        | Some pageJson \<Rightarrow> Inr pageJson,
        log @ [ReadJson pageTitle]))"

text \<open>
  \<^verbatim>\<open>const patches = parsePatch(diffText);
  if (!patches.length) throw new Error('No patch found in diff');
  return patches[0];\<close>
\<close>

definition parseFirstPatch :: "'p World \<Rightarrow> string \<Rightarrow> 'p io" where
  "parseFirstPatch w diffText =
     (case parsePatch w diffText of
        None \<Rightarrow> throw DiffParseError
      | Some [] \<Rightarrow> throw NoPatchFound
      | Some (p # ps) \<Rightarrow> ret p)"

text \<open>
  \<^verbatim>\<open>try { const result = await page.evaluate(async (lines) => {
          const sb = window.scrapbox;
          if (!sb?.Page?.updateLine || !sb?.Page?.insertLine || !sb?.Page?.waitForSave) return false;
          ...; await sb.Page.waitForSave(); return true; }, newLines);
        return Boolean(result);
  } catch { return false; }\<close>
  The calls made before one throws have taken place.
\<close>

definition tryInternalPatch :: "'p World \<Rightarrow> string list \<Rightarrow> bool io" where
  "tryInternalPatch w ls =
     (\<lambda>log. case scrapbox w of
        None \<Rightarrow> (Inr False, log)
      | Some sb \<Rightarrow>
          if \<not> hasUpdateLine sb \<or> \<not> hasInsertLine sb \<or> \<not> hasWaitForSave sb
          then (Inr False, log)
          else
            (let current = map (\<lambda>l. case l of None \<Rightarrow> [] | Some t \<Rightarrow> t) (pageLines sb);
                 calls = internalPatchCalls current ls @ [WaitForSave]
             in case throwsAt sb of
                  None \<Rightarrow> (Inr True, log @ calls)
                | Some k \<Rightarrow>
                    if k < length calls then (Inr False, log @ take k calls)
                    else (Inr True, log @ calls)))"

text \<open>The slow path on the page: the steps of \<^verbatim>\<open>applyOps\<close>, until one throws.\<close>

fun performAll :: "'p World \<Rightarrow> action list \<Rightarrow> unit io" where
  "performAll w [] = ret ()"
| "performAll w (a # as) = bindIO (perform w a) (\<lambda>_. performAll w as)"

definition applyOpsPage :: "'p World \<Rightarrow> PatchOp list \<Rightarrow> unit io" where
  "applyOpsPage w ops = performAll w (map Slow (applyOps ops))"

text \<open>
  \<^verbatim>\<open>async patch(pageTitle, diffText, opts = {}) {
    const pageJson = await this.readJson(pageTitle);
    const baseUpdated = pageJson.updated;
    const lines = extractLines(pageJson);
    const originalText = linesToText(lines);
    const patch = parseFirstPatch(diffText);
    const newText = applyPatch(originalText, patch, { fuzzFactor: opts.fuzz ?? 0 });
    if (newText === false) throw new Error('Patch apply failed');
    if (opts.dryRun) return newText;
    if (opts.checkUpdated) {
      const latest = await this.readJson(pageTitle);
      if (latest.updated !== baseUpdated) throw new Error('Page was updated before patch ...'); }
    const ops = buildOps(originalText, newText);
    if (ops.length === 0) return;
    const ctx = this.getContext();
    const page = await ctx.newPage();
    await page.goto(url.toString(), { waitUntil: 'domcontentloaded' });
    await page.waitForSelector('#editor .line', { state: 'attached' });
    if (opts.waitMs && opts.waitMs > 0) await page.waitForTimeout(opts.waitMs);
    const newLines = splitLines(newText);
    const internal = await tryInternalPatch(page, newLines);
    if (!internal) { await page.click('#editor'); await applyOps(page, ops, lines); }
    await page.close();
    const after = await this.readJson(pageTitle);
    const afterText = linesToText(extractLines(after));
    if (afterText !== newText) throw new Error('Verification failed ...'); }\<close>
  The method is written in three parts: \<open>stalenessCheck\<close> is the \<^verbatim>\<open>if (opts.checkUpdated)\<close>
  block, \<open>mutate\<close> is everything from \<^verbatim>\<open>this.getContext()\<close> to the end, and \<open>patch\<close> is the
  method from its first line, calling the two.
\<close>

definition stalenessCheck :: "'p World \<Rightarrow> string \<Rightarrow> PatchOptions \<Rightarrow> nat option \<Rightarrow> unit io" where
  "stalenessCheck w pageTitle opts baseUpdated =
     (if checkUpdated opts then
        bindIO (readJson w pageTitle) (\<lambda>latest.
          if updated latest \<noteq> baseUpdated then throw ConcurrentModification else ret ())
      else ret ())"

definition mutate :: "'p World \<Rightarrow> string \<Rightarrow> PatchOptions \<Rightarrow> PatchOp list \<Rightarrow> string \<Rightarrow> patchResult io" where
  "mutate w pageTitle opts ops newText =
     bindIO (getContext w) (\<lambda>_.
     bindIO (perform w NewPage) (\<lambda>_.
     bindIO (perform w (Goto pageTitle)) (\<lambda>_.
     bindIO (perform w WaitForSelector) (\<lambda>_.
     bindIO (case waitMs opts of
               None \<Rightarrow> ret ()
             | Some ms \<Rightarrow> if ms > 0 then perform w (WaitForTimeout ms) else ret ()) (\<lambda>_.
     bindIO (tryInternalPatch w (splitLines newText)) (\<lambda>internal.
     bindIO (if \<not> internal
             then bindIO (perform w Click) (\<lambda>_. applyOpsPage w ops)
             else ret ()) (\<lambda>_.
     bindIO (perform w ClosePage) (\<lambda>_.
     bindIO (readJson w pageTitle) (\<lambda>after.
       if linesToText (extractLines after) \<noteq> newText then throw VerificationFailed
       else ret Void)))))))))"

definition patch :: "'p World \<Rightarrow> string \<Rightarrow> string \<Rightarrow> PatchOptions \<Rightarrow> patchResult io" where
  "patch w pageTitle diffText opts =
     bindIO (readJson w pageTitle) (\<lambda>pageJson.
       let baseUpdated = updated pageJson;
           originalText = linesToText (extractLines pageJson)
       in bindIO (parseFirstPatch w diffText) (\<lambda>p.
            case applyPatch w originalText p (case fuzz opts of None \<Rightarrow> 0 | Some f \<Rightarrow> f) of
              None \<Rightarrow> throw PatchApplyFailed
            | Some newText \<Rightarrow>
                if dryRun opts then ret (Text newText)
                else
                  bindIO (stalenessCheck w pageTitle opts baseUpdated) (\<lambda>_.
                    let ops = buildOps originalText newText
                    in if ops = [] then ret Void
                       else mutate w pageTitle opts ops newText)))"

subsection \<open>When the fast path is not available\<close>





text \<open>A small world for concrete runs: the diff text stands for the target text itself.\<close>

definition demoPage :: "nat \<Rightarrow> string list \<Rightarrow> PageJson" where
  "demoPage token ls =
     \<lparr>updated = Some token, jlines = Some (map (\<lambda>t. \<lparr>jid = None, jtext = Some t\<rparr>) ls)\<rparr>"

definition demoWorld :: "(nat \<Rightarrow> PageJson option) \<Rightarrow> Bridge option \<Rightarrow> string World" where
  "demoWorld rs sb =
     \<lparr>hasContext = True, responses = rs, parsePatch = (\<lambda>d. Some [d]),
      applyPatch = (\<lambda>orig p fz. Some p), pageFails = (\<lambda>a. False), scrapbox = sb\<rparr>"

definition demoOpts :: "bool \<Rightarrow> bool \<Rightarrow> PatchOptions" where
  "demoOpts chk dry = \<lparr>fuzz = None, checkUpdated = chk, waitMs = None, debug = False, dryRun = dry\<rparr>"

section \<open>Lines and tokens\<close>

lemma split_nl_nonempty: "split_nl v \<noteq> []"
  by (induction v) (auto split: list.splits)

lemma split_nl_line: "NL \<notin> set l \<Longrightarrow> split_nl (l @ NL # v) = l # split_nl v"
  by (induction l) auto

lemma split_nl_plain: "NL \<notin> set l \<Longrightarrow> split_nl l = [l]"
  by (induction l) auto

lemma splitLines_Nil: "splitLines [] = []"
  by (simp add: splitLines_def)

lemma splitLines_line: "NL \<notin> set l \<Longrightarrow> splitLines (l @ NL # v) = l # splitLines v"
  using split_nl_nonempty [of v]
  by (simp add: splitLines_def split_nl_line Let_def)

lemma splitLines_plain: "l \<noteq> [] \<Longrightarrow> NL \<notin> set l \<Longrightarrow> splitLines l = [l]"
  by (simp add: splitLines_def split_nl_plain)

lemma closed_decompose: "closed t \<Longrightarrow> t = butlast t @ [NL]"
  by (metis closed_def append_butlast_last_id)

lemma splitLines_closed:
  assumes "lineToken t" and "closed t"
  shows "splitLines (t @ v) = chomp t # splitLines v"
proof -
  have t: "t = butlast t @ [NL]" using assms(2) by (rule closed_decompose)
  have "splitLines ((butlast t @ [NL]) @ v) = butlast t # splitLines v"
    using assms(1) by (simp add: lineToken_def splitLines_line)
  moreover have "chomp t = butlast t"
    using assms(2) by (simp add: chomp_def closed_def)
  ultimately show ?thesis using t by simp
qed

lemma splitLines_token:
  assumes "lineToken t"
  shows "splitLines t = [chomp t]"
proof (cases "closed t")
  case True
  then show ?thesis
    using splitLines_closed [OF assms True, of "[]"] by (simp add: splitLines_Nil)
next
  case False
  with assms have "last t \<noteq> NL" and "t \<noteq> []"
    by (auto simp: closed_def lineToken_def)
  moreover from this assms have "NL \<notin> set t"
    by (metis lineToken_def append_butlast_last_id insert_iff list.set(2) rotate1.simps(2)
        set_rotate1)
  ultimately show ?thesis
    by (simp add: chomp_def splitLines_plain)
qed

lemma wellTerminated_Cons:
  "wellTerminated (t # ts) = (lineToken t \<and> (ts \<noteq> [] \<longrightarrow> closed t) \<and> wellTerminated ts)"
  by (cases ts) auto

lemma splitLines_concat: "wellTerminated ts \<Longrightarrow> splitLines (concat ts) = map chomp ts"
proof (induction ts)
  case Nil
  show ?case by (simp add: splitLines_Nil)
next
  case (Cons t ts)
  show ?case
  proof (cases "ts = []")
    case True
    with Cons.prems show ?thesis by (simp add: splitLines_token)
  next
    case False
    with Cons show ?thesis
      by (simp add: wellTerminated_Cons splitLines_closed)
  qed
qed

lemma concat_tokenize: "concat (tokenize v) = v"
  by (induction v) (auto split: list.splits)

lemma wellTerminated_tokenize: "wellTerminated (tokenize v)"
proof (induction v)
  case Nil
  show ?case by simp
next
  case (Cons c cs)
  show ?case
  proof (cases "c = NL")
    case True
    with Cons show ?thesis
      by (simp add: wellTerminated_Cons lineToken_def closed_def)
  next
    case False
    show ?thesis
    proof (cases "tokenize cs")
      case Nil
      with False show ?thesis by (simp add: lineToken_def)
    next
      case (Cons t ts)
      with Cons.IH have t: "lineToken t" "ts \<noteq> [] \<longrightarrow> closed t" "wellTerminated ts"
        by (simp_all add: wellTerminated_Cons)
      from t(1) have "t \<noteq> []" by (simp add: lineToken_def)
      with t False have "lineToken (c # t)" "ts \<noteq> [] \<longrightarrow> closed (c # t)"
        by (simp_all add: lineToken_def closed_def)
      with t(3) Cons False show ?thesis
        by (simp add: wellTerminated_Cons)
    qed
  qed
qed

lemma splitLines_tokenize: "splitLines v = map chomp (tokenize v)"
  using splitLines_concat [OF wellTerminated_tokenize, of v]
  by (simp add: concat_tokenize)

section \<open>The run sequence of the line diff\<close>

lemma oldTokens_edit_script: "oldTokens (edit_script xs ys) = xs"
  by (induction xs ys rule: edit_script.induct) (auto simp: oldTokens_def filter_map o_def)

lemma newTokens_edit_script: "newTokens (edit_script xs ys) = ys"
  by (induction xs ys rule: edit_script.induct) (auto simp: newTokens_def filter_map o_def)

lemma tag_of_change_of: "tag_of (change_of t v) = t"
  by (cases t) (simp_all add: tag_of_def change_of_def)

lemma tag_of_cvalue_update: "tag_of (c\<lparr>cvalue := v\<rparr>) = tag_of c"
  by (simp add: tag_of_def)

lemma components_head:
  "components s = c # cs \<Longrightarrow> \<exists>v r. s = (tag_of c, v) # r"
proof (cases s)
  case Nil
  assume "components s = c # cs"
  with Nil show ?thesis by simp
next
  case (Cons p rest)
  assume a: "components s = c # cs"
  obtain t v where p: "p = (t, v)" by (cases p)
  from a Cons p have "tag_of c = t"
    by (cases "components rest")
       (auto simp: tag_of_change_of tag_of_cvalue_update split: if_splits)
  with Cons p show ?thesis by simp
qed

lemma components_Nil: "components s = [] \<Longrightarrow> s = []"
proof (cases s)
  case Nil
  then show ?thesis by simp
next
  case (Cons p rest)
  assume a: "components s = []"
  obtain t v where p: "p = (t, v)" by (cases p)
  from a Cons p show ?thesis
    by (cases "components rest") (auto split: if_splits)
qed

lemma oldLines_Cons:
  "oldLines (c # cs) = (if added c then [] else splitLines (cvalue c)) @ oldLines cs"
  by (simp add: oldLines_def)

lemma newLines_Cons:
  "newLines (c # cs) =
     (if added c then splitLines (cvalue c)
      else if removed c then [] else splitLines (cvalue c)) @ newLines cs"
  by (simp add: newLines_def)

lemma tag_of_cases:
  "(tag_of c = Added) = added c"
  "(tag_of c = Removed) = (\<not> added c \<and> removed c)"
  "(tag_of c = Common) = (\<not> added c \<and> \<not> removed c)"
  by (simp_all add: tag_of_def)

lemma lines_components:
  "wellTerminated (oldTokens s) \<Longrightarrow> wellTerminated (newTokens s) \<Longrightarrow>
   oldLines (components s) = map chomp (oldTokens s) \<and>
   newLines (components s) = map chomp (newTokens s)"
proof (induction s)
  case Nil
  show ?case by (simp add: oldLines_def newLines_def oldTokens_def newTokens_def)
next
  case (Cons p rest)
  obtain t v where p: "p = (t, v)" by (cases p)
  have wo: "wellTerminated (oldTokens rest)" and wn: "wellTerminated (newTokens rest)"
    using Cons.prems p
    by (auto simp: oldTokens_def newTokens_def wellTerminated_Cons split: if_splits)
  note IH = Cons.IH [OF wo wn]
  have tok_old: "t \<noteq> Added \<Longrightarrow> lineToken v \<and> (oldTokens rest \<noteq> [] \<longrightarrow> closed v)"
    using Cons.prems(1) p by (simp add: oldTokens_def wellTerminated_Cons)
  have tok_new: "t \<noteq> Removed \<Longrightarrow> lineToken v \<and> (newTokens rest \<noteq> [] \<longrightarrow> closed v)"
    using Cons.prems(2) p by (simp add: newTokens_def wellTerminated_Cons)
  have old_step: "oldTokens (p # rest) = (if t \<noteq> Added then [v] else []) @ oldTokens rest"
    and new_step: "newTokens (p # rest) = (if t \<noteq> Removed then [v] else []) @ newTokens rest"
    using p by (simp_all add: oldTokens_def newTokens_def)
  show ?case
  proof (cases "components rest")
    case Nil
    then have "rest = []" by (rule components_Nil)
    with p tok_old tok_new show ?thesis
      by (cases t)
         (simp_all add: oldLines_def newLines_def oldTokens_def newTokens_def
            change_of_def splitLines_token)
  next
    case (Cons c cs)
    then obtain v' r where rest: "rest = (tag_of c, v') # r"
      using components_head by blast
    show ?thesis
    proof (cases "tag_of c = t")
      case False
      with Cons p have comp: "components (p # rest) = change_of t v # components rest"
        by simp
      show ?thesis
        using IH tok_old tok_new
        unfolding comp old_step new_step
        by (cases t) (simp_all add: oldLines_Cons newLines_Cons change_of_def splitLines_token)
    next
      case True
      with Cons p have comp: "components (p # rest) = c\<lparr>cvalue := v @ cvalue c\<rparr> # cs"
        by simp
      have cl_old: "t \<noteq> Added \<Longrightarrow> lineToken v \<and> closed v"
        using tok_old rest True by (simp add: oldTokens_def)
      have cl_new: "t \<noteq> Removed \<Longrightarrow> lineToken v \<and> closed v"
        using tok_new rest True by (simp add: newTokens_def)
      show ?thesis
        using IH cl_old cl_new True tag_of_cases [of c]
        unfolding comp old_step new_step Cons
        by (cases t) (simp_all add: oldLines_Cons newLines_Cons splitLines_closed)
    qed
  qed
qed

lemma oldLines_diffLines: "oldLines (diffLines a b) = splitLines a"
  using lines_components [of "edit_script (tokenize a) (tokenize b)"]
  by (simp add: diffLines_def oldTokens_edit_script newTokens_edit_script
      wellTerminated_tokenize splitLines_tokenize)

lemma newLines_diffLines: "newLines (diffLines a b) = splitLines b"
  using lines_components [of "edit_script (tokenize a) (tokenize b)"]
  by (simp add: diffLines_def oldTokens_edit_script newTokens_edit_script
      wellTerminated_tokenize splitLines_tokenize)

section \<open>Grouping\<close>

lemma mergedGroup_Nil: "mergedGroup i [] = \<lparr>removeCount = 0, insertLines = []\<rparr>"
  by (simp add: mergedGroup_def)

lemma mergedGroup_snoc_other:
  "index op \<noteq> i \<Longrightarrow> mergedGroup i (ops @ [op]) = mergedGroup i ops"
  by (simp add: mergedGroup_def)

lemma mergedGroup_snoc_Remove:
  "mergedGroup i (ops @ [Remove i c]) =
     (mergedGroup i ops)\<lparr>removeCount := removeCount (mergedGroup i ops) + c\<rparr>"
  by (simp add: mergedGroup_def)

lemma mergedGroup_snoc_Insert:
  "mergedGroup i (ops @ [Insert i ls]) =
     (mergedGroup i ops)\<lparr>insertLines := insertLines (mergedGroup i ops) @ ls\<rparr>"
  by (simp add: mergedGroup_def)

lemma mergedGroup_absent:
  "i \<notin> index ` set ops \<Longrightarrow> mergedGroup i ops = \<lparr>removeCount = 0, insertLines = []\<rparr>"
proof -
  assume "i \<notin> index ` set ops"
  then have "filter (\<lambda>op. index op = i) ops = []"
    by (auto simp: filter_empty_conv)
  then show ?thesis by (simp add: mergedGroup_def)
qed

lemma groupOps_snoc: "groupOps (ops @ [op]) = groupOps_step (groupOps ops) op"
  by (simp add: groupOps_def)

lemma map_of_groupOps:
  "map_of (groupOps ops) i =
     (if i \<in> index ` set ops then Some (mergedGroup i ops) else None)"
proof (induction ops rule: rev_induct)
  case Nil
  show ?case by (simp add: groupOps_def)
next
  case (snoc op ops)
  show ?case
  proof (cases "index op = i")
    case False
    then show ?thesis
      using snoc
      by (simp add: groupOps_snoc groupOps_step_def Let_def update_conv'
          mergedGroup_snoc_other)
  next
    case True
    show ?thesis
    proof (cases op)
      case (Remove j c)
      with True have op: "op = Remove i c" by simp
      show ?thesis
        using snoc
        by (simp add: op groupOps_snoc groupOps_step_def Let_def update_conv'
            mergedGroup_snoc_Remove mergedGroup_absent)
    next
      case (Insert j ls)
      with True have op: "op = Insert i ls" by simp
      show ?thesis
        using snoc
        by (simp add: op groupOps_snoc groupOps_step_def Let_def update_conv'
            mergedGroup_snoc_Insert mergedGroup_absent)
    qed
  qed
qed

lemma distinct_groupOps: "distinct (map fst (groupOps ops))"
proof (induction ops rule: rev_induct)
  case Nil
  show ?case by (simp add: groupOps_def)
next
  case (snoc op ops)
  then show ?case
    by (simp add: groupOps_snoc groupOps_step_def Let_def distinct_update)
qed

lemma keys_groupOps: "set (map fst (groupOps ops)) = index ` set ops"
proof -
  have "set (map fst (groupOps ops)) = dom (map_of (groupOps ops))"
    by (simp add: dom_map_of_conv_image_fst)
  also have "\<dots> = index ` set ops"
    by (auto simp: map_of_groupOps dom_def)
  finally show ?thesis .
qed

section \<open>The operation list of a run sequence\<close>

lemma buildOps_loop_acc:
  "buildOps_loop cs i (acc @ ops) = acc @ buildOps_loop cs i ops"
  by (induction cs arbitrary: i ops) (simp_all add: Let_def)

lemma buildOps_loop_added:
  "added part \<Longrightarrow> splitLines (cvalue part) \<noteq> [] \<Longrightarrow>
   buildOps_loop (part # cs) i [] = Insert i (splitLines (cvalue part)) # buildOps_loop cs i []"
  using buildOps_loop_acc [of cs i "[Insert i (splitLines (cvalue part))]" "[]"]
  by (simp add: Let_def buildOps_loop.simps(2))

lemma buildOps_loop_removed:
  "\<not> added part \<Longrightarrow> removed part \<Longrightarrow> splitLines (cvalue part) \<noteq> [] \<Longrightarrow>
   buildOps_loop (part # cs) i [] =
     Remove i (length (splitLines (cvalue part))) #
     buildOps_loop cs (i + length (splitLines (cvalue part))) []"
  using buildOps_loop_acc [of cs "i + length (splitLines (cvalue part))"
      "[Remove i (length (splitLines (cvalue part)))]" "[]"]
  by (simp add: Let_def buildOps_loop.simps(2))

lemma buildOps_loop_skip:
  "splitLines (cvalue part) = [] \<Longrightarrow> buildOps_loop (part # cs) i [] = buildOps_loop cs i []"
  by (simp add: Let_def buildOps_loop.simps(2))

lemma buildOps_loop_common:
  "\<not> added part \<Longrightarrow> \<not> removed part \<Longrightarrow>
   buildOps_loop (part # cs) i [] = buildOps_loop cs (i + length (splitLines (cvalue part))) []"
  by (simp add: Let_def buildOps_loop.simps(2))

declare buildOps_loop.simps(2) [simp del]

lemma buildOps_loop_index:
  "op \<in> set (buildOps_loop cs i []) \<Longrightarrow> i \<le> index op"
proof (induction cs arbitrary: i)
  case Nil
  then show ?case by simp
next
  case (Cons part cs)
  show ?case
  proof (cases "splitLines (cvalue part) = []")
    case True
    with Cons show ?thesis by (simp add: buildOps_loop_skip)
  next
    case False
    show ?thesis
    proof (cases "added part")
      case True
      with False Cons show ?thesis
        by (auto simp: buildOps_loop_added)
    next
      case notadded: False
      show ?thesis
      proof (cases "removed part")
        case True
        with notadded False Cons.prems
        have "op = Remove i (length (splitLines (cvalue part))) \<or>
              op \<in> set (buildOps_loop cs (i + length (splitLines (cvalue part))) [])"
          by (simp add: buildOps_loop_removed)
        then show ?thesis
          using Cons.IH [of "i + length (splitLines (cvalue part))"] by auto
      next
        case False
        with notadded Cons.prems
        have "op \<in> set (buildOps_loop cs (i + length (splitLines (cvalue part))) [])"
          by (simp add: buildOps_loop_common)
        then show ?thesis
          using Cons.IH [of "i + length (splitLines (cvalue part))"] by auto
      qed
    qed
  qed
qed

section \<open>Applying grouped operations to a line array\<close>

lemma runSteps_Nil: "runSteps [] arr = arr"
  by (simp add: runSteps_def)

lemma runSteps_append: "runSteps (xs @ ys) arr = runSteps ys (runSteps xs arr)"
  by (simp add: runSteps_def)

lemma runSteps_groupSteps:
  "runSteps (groupSteps i g) arr = take i arr @ insertLines g @ drop (i + removeCount g) arr"
  by (auto simp: runSteps_def groupSteps_def min_def add.commute)

lemma sortedIndices_lookup:
  "i \<in> set (sortedIndices groups) \<Longrightarrow> map_of groups i \<noteq> None"
  by (auto simp: sortedIndices_def map_of_eq_None_iff)

lemma runSteps_applyOps_loop:
  "(\<And>i. i \<in> set indices \<Longrightarrow> map_of groups i = Some (G i)) \<Longrightarrow>
   runSteps (applyOps_loop groups indices) arr =
     foldl (\<lambda>a i. runSteps (groupSteps i (G i)) a) arr indices"
  by (induction indices arbitrary: arr) (simp_all add: runSteps_Nil runSteps_append)

lemma sortedIndices_groupOps:
  "sortedIndices (groupOps ops) = rev (sorted_list_of_set (index ` set ops))"
proof -
  have "sorted_list_of_set (set (map fst (groupOps ops))) = sort (map fst (groupOps ops))"
    using distinct_groupOps [of ops]
    by (simp add: sorted_list_of_set_sort_remdups distinct_remdups_id del: set_map)
  then show ?thesis
    using keys_groupOps [of ops] by (simp add: sortedIndices_def)
qed

lemma applyOpsArray_fold:
  "applyOpsArray ops arr =
     foldl (\<lambda>a i. runSteps (groupSteps i (mergedGroup i ops)) a) arr
       (rev (sorted_list_of_set (index ` set ops)))"
proof -
  have "\<And>i. i \<in> set (sortedIndices (groupOps ops)) \<Longrightarrow>
          map_of (groupOps ops) i = Some (mergedGroup i ops)"
    by (simp add: sortedIndices_groupOps map_of_groupOps)
  then have "runSteps (applyOps_loop (groupOps ops) (sortedIndices (groupOps ops))) arr =
     foldl (\<lambda>a i. runSteps (groupSteps i (mergedGroup i ops)) a) arr
       (sortedIndices (groupOps ops))"
    by (rule runSteps_applyOps_loop)
  then show ?thesis
    by (simp add: applyOpsArray_def applyOps_def Let_def sortedIndices_groupOps)
qed

lemma mergedGroup_filter:
  "i \<noteq> k \<Longrightarrow> mergedGroup i (filter (\<lambda>op. index op \<noteq> k) ops) = mergedGroup i ops"
proof -
  assume "i \<noteq> k"
  then have "filter (\<lambda>op. index op = i) (filter (\<lambda>op. index op \<noteq> k) ops) =
             filter (\<lambda>op. index op = i) ops"
    by (auto intro: filter_cong)
  then show ?thesis by (simp add: mergedGroup_def)
qed

lemma applyOpsArray_peel:
  assumes ge: "\<And>op. op \<in> set ops \<Longrightarrow> k \<le> index op"
  shows "applyOpsArray ops arr =
           runSteps (groupSteps k (mergedGroup k ops))
             (applyOpsArray (filter (\<lambda>op. index op \<noteq> k) ops) arr)"
proof (cases "k \<in> index ` set ops")
  case False
  then have "filter (\<lambda>op. index op \<noteq> k) ops = ops"
    by (auto simp: filter_id_conv)
  with False show ?thesis
    by (simp add: mergedGroup_absent groupSteps_def runSteps_Nil)
next
  case True
  let ?S = "index ` set ops"
  let ?ops' = "filter (\<lambda>op. index op \<noteq> k) ops"
  have fin: "finite ?S" by simp
  have "Min ?S = k"
    using True ge by (intro Min_eqI) auto
  moreover have "?S \<noteq> {}" using True by auto
  ultimately have sl: "sorted_list_of_set ?S = k # sorted_list_of_set (?S - {k})"
    using sorted_list_of_set_nonempty [OF fin] by simp
  have S': "index ` set ?ops' = ?S - {k}" by auto
  have "applyOpsArray ?ops' arr =
          foldl (\<lambda>a i. runSteps (groupSteps i (mergedGroup i ?ops')) a) arr
            (rev (sorted_list_of_set (?S - {k})))"
    by (simp only: applyOpsArray_fold S')
  also have "\<dots> = foldl (\<lambda>a i. runSteps (groupSteps i (mergedGroup i ops)) a) arr
            (rev (sorted_list_of_set (?S - {k})))"
    by (rule foldl_cong) (auto simp: mergedGroup_filter)
  finally show ?thesis
    by (simp add: applyOpsArray_fold [of ops] sl)
qed

lemma foldl_invariant:
  "P a \<Longrightarrow> (\<And>a x. x \<in> set xs \<Longrightarrow> P a \<Longrightarrow> P (f a x)) \<Longrightarrow> P (foldl f a xs)"
  by (induction xs arbitrary: a) simp_all

lemma applyOpsArray_length:
  assumes ge: "\<And>op. op \<in> set ops \<Longrightarrow> k \<le> index op" and len: "k \<le> length arr"
  shows "k \<le> length (applyOpsArray ops arr)"
  unfolding applyOpsArray_fold
proof (rule foldl_invariant [where P = "\<lambda>a. k \<le> length a"])
  show "k \<le> length arr" by (rule len)
next
  fix a :: "string list" and i
  assume "i \<in> set (rev (sorted_list_of_set (index ` set ops)))" and "k \<le> length a"
  moreover from this have "k \<le> i" using ge by auto
  ultimately show "k \<le> length (runSteps (groupSteps i (mergedGroup i ops)) a)"
    by (simp add: runSteps_groupSteps min_def)
qed

lemma mergedGroup_Cons_Insert:
  "mergedGroup i (Insert i ls # ops) =
     (mergedGroup i ops)\<lparr>insertLines := ls @ insertLines (mergedGroup i ops)\<rparr>"
  by (simp add: mergedGroup_def)

lemma applyOpsArray_buildOps_loop:
  "length pre = i \<Longrightarrow>
   applyOpsArray (buildOps_loop cs i []) (pre @ oldLines cs) = pre @ newLines cs"
proof (induction cs arbitrary: i pre)
  case Nil
  show ?case
    by (simp add: applyOpsArray_fold oldLines_def newLines_def)
next
  case (Cons part cs)
  let ?ls = "splitLines (cvalue part)"
  let ?n = "length ?ls"
  show ?case
  proof (cases "added part")
    case True
    show ?thesis
    proof (cases "?ls = []")
      case empty: True
      with True Cons.IH [OF Cons.prems] show ?thesis
        by (simp add: buildOps_loop_skip oldLines_Cons newLines_Cons)
    next
      case False
      let ?R = "buildOps_loop cs i []"
      let ?arr = "pre @ oldLines cs"
      let ?X = "applyOpsArray (filter (\<lambda>op. index op \<noteq> i) ?R) ?arr"
      let ?g = "mergedGroup i ?R"
      have geR: "\<And>op. op \<in> set ?R \<Longrightarrow> i \<le> index op"
        by (rule buildOps_loop_index)
      have ops: "buildOps_loop (part # cs) i [] = Insert i ?ls # ?R"
        using True False by (rule buildOps_loop_added)
      have "applyOpsArray ?R ?arr = runSteps (groupSteps i ?g) ?X"
        using geR by (rule applyOpsArray_peel)
      with Cons.IH [OF Cons.prems]
      have eq: "take i ?X @ insertLines ?g @ drop (i + removeCount ?g) ?X = pre @ newLines cs"
        by (simp add: runSteps_groupSteps)
      have "i \<le> length ?X"
        using Cons.prems geR by (intro applyOpsArray_length) auto
      then have "length (take i ?X) = length pre"
        using Cons.prems by simp
      with eq have pre: "take i ?X = pre"
        and rest: "insertLines ?g @ drop (i + removeCount ?g) ?X = newLines cs"
        by (simp_all add: append_eq_append_conv)
      have "applyOpsArray (Insert i ?ls # ?R) ?arr =
              runSteps (groupSteps i (mergedGroup i (Insert i ?ls # ?R)))
                (applyOpsArray (filter (\<lambda>op. index op \<noteq> i) (Insert i ?ls # ?R)) ?arr)"
        using geR by (intro applyOpsArray_peel) auto
      also have "\<dots> = take i ?X @ ?ls @ insertLines ?g @ drop (i + removeCount ?g) ?X"
        by (simp add: runSteps_groupSteps mergedGroup_Cons_Insert)
      also have "\<dots> = pre @ ?ls @ newLines cs"
        using pre rest by simp
      finally show ?thesis
        using True by (simp add: ops oldLines_Cons newLines_Cons)
    qed
  next
    case notadded: False
    have IH: "applyOpsArray (buildOps_loop cs (i + ?n) []) ((pre @ ?ls) @ oldLines cs) =
                (pre @ ?ls) @ newLines cs"
      using Cons.prems by (intro Cons.IH) simp
    show ?thesis
    proof (cases "removed part \<and> ?ls \<noteq> []")
      case False
      then have "buildOps_loop (part # cs) i [] = buildOps_loop cs (i + ?n) []"
        using notadded by (auto simp: Let_def buildOps_loop.simps(2))
      moreover have "removed part \<Longrightarrow> ?ls = []" using False by simp
      ultimately show ?thesis
        using IH notadded by (auto simp: oldLines_Cons newLines_Cons)
    next
      case True
      let ?R = "buildOps_loop cs (i + ?n) []"
      let ?arr = "pre @ oldLines (part # cs)"
      have n: "0 < ?n" using True by simp
      have geR: "\<And>op. op \<in> set ?R \<Longrightarrow> i + ?n \<le> index op"
        by (rule buildOps_loop_index)
      then have notin: "i \<notin> index ` set ?R" using n by fastforce
      have ops: "buildOps_loop (part # cs) i [] = Remove i ?n # ?R"
        using notadded True by (simp add: buildOps_loop_removed)
      have filt: "filter (\<lambda>op. index op \<noteq> i) ?R = ?R"
        using notin by (auto simp: filter_id_conv)
      have grp: "mergedGroup i (Remove i ?n # ?R) = \<lparr>removeCount = ?n, insertLines = []\<rparr>"
        using mergedGroup_absent [OF notin] by (simp add: mergedGroup_def)
      have "applyOpsArray (Remove i ?n # ?R) ?arr =
              runSteps (groupSteps i (mergedGroup i (Remove i ?n # ?R)))
                (applyOpsArray (filter (\<lambda>op. index op \<noteq> i) (Remove i ?n # ?R)) ?arr)"
      proof (rule applyOpsArray_peel)
        fix op assume "op \<in> set (Remove i ?n # ?R)"
        then show "i \<le> index op" using geR by fastforce
      qed
      also have "\<dots> = runSteps (groupSteps i \<lparr>removeCount = ?n, insertLines = []\<rparr>)
                          ((pre @ ?ls) @ newLines cs)"
        using IH notadded by (simp add: filt grp oldLines_Cons)
      also have "\<dots> = pre @ newLines cs"
        using Cons.prems by (simp add: runSteps_groupSteps)
      finally show ?thesis
        using notadded True by (simp add: ops newLines_Cons)
    qed
  qed
qed

lemma spaced_mono: "spaced k n ops \<Longrightarrow> k' \<le> k \<Longrightarrow> spaced k' n ops"
proof (cases ops)
  case Nil
  assume "spaced k n ops" and "k' \<le> k"
  with Nil show ?thesis by simp
next
  case (Cons op rest)
  assume "spaced k n ops" and "k' \<le> k"
  with Cons show ?thesis by (cases op) auto
qed

lemma spaced_bound: "spaced k n ops \<Longrightarrow> k \<le> n"
  by (induction k n ops rule: spaced.induct) auto

lemma spaced_buildOps_loop:
  "spaced i (i + length (oldLines cs)) (buildOps_loop cs i [])"
proof (induction cs arbitrary: i)
  case Nil
  show ?case by (simp add: oldLines_def)
next
  case (Cons part cs)
  let ?ls = "splitLines (cvalue part)"
  show ?case
  proof (cases "added part")
    case True
    show ?thesis
    proof (cases "?ls = []")
      case empty: True
      with True Cons [of i] show ?thesis
        by (simp add: buildOps_loop_skip oldLines_Cons)
    next
      case False
      with True Cons [of i] show ?thesis
        by (simp add: buildOps_loop_added oldLines_Cons)
    qed
  next
    case notadded: False
    have IH: "spaced (i + length ?ls) (i + length (oldLines (part # cs)))
                (buildOps_loop cs (i + length ?ls) [])"
      using Cons [of "i + length ?ls"] notadded by (simp add: oldLines_Cons add.assoc)
    show ?thesis
    proof (cases "removed part \<and> ?ls \<noteq> []")
      case True
      with notadded IH show ?thesis
        by (simp add: buildOps_loop_removed)
    next
      case False
      then have "buildOps_loop (part # cs) i [] = buildOps_loop cs (i + length ?ls) []"
        using notadded by (auto simp: Let_def buildOps_loop.simps(2))
      with IH show ?thesis
        by (simp add: spaced_mono)
    qed
  qed
qed

lemma spaced_index:
  "spaced k n ops \<Longrightarrow> op \<in> set ops \<Longrightarrow> k \<le> index op \<and> index op + removedBy op \<le> n"
proof (induction k n ops rule: spaced.induct)
  case (1 k n)
  then show ?case by simp
next
  case (2 k n i ls ops)
  from "2.prems"(1) have "spaced i n ops" by simp
  then have "i \<le> n" by (rule spaced_bound)
  with 2 show ?case by auto
next
  case (3 k n i c ops)
  from "3.prems"(1) have "spaced (i + c) n ops" by simp
  then have "i + c \<le> n" by (rule spaced_bound)
  with 3 show ?case by auto
qed

lemma removeCount_mergedGroup_Cons:
  "removeCount (mergedGroup i (op # ops)) =
     (if index op = i then removedBy op else 0) + removeCount (mergedGroup i ops)"
  by (simp add: mergedGroup_def)

lemma removeCount_absent:
  "(\<And>op. op \<in> set ops \<Longrightarrow> index op \<noteq> i) \<Longrightarrow> removeCount (mergedGroup i ops) = 0"
proof -
  assume "\<And>op. op \<in> set ops \<Longrightarrow> index op \<noteq> i"
  then have "i \<notin> index ` set ops" by auto
  then show ?thesis by (simp add: mergedGroup_absent)
qed

lemma spaced_removeCount_bound:
  "spaced k n ops \<Longrightarrow> i \<in> index ` set ops \<Longrightarrow> i + removeCount (mergedGroup i ops) \<le> n"
proof (induction k n ops rule: spaced.induct)
  case (1 k n)
  then show ?case by simp
next
  case (2 k n j ls ops)
  then have sp: "spaced j n ops" by simp
  show ?case
  proof (cases "i \<in> index ` set ops")
    case True
    with 2 sp show ?thesis by (simp add: removeCount_mergedGroup_Cons)
  next
    case False
    with "2.prems" have "i = j" by auto
    moreover have "removeCount (mergedGroup i ops) = 0"
      using False by (intro removeCount_absent) auto
    ultimately show ?thesis
      using spaced_bound [OF sp] by (simp add: removeCount_mergedGroup_Cons)
  qed
next
  case (3 k n j c ops)
  then have sp: "spaced (j + c) n ops" and c: "0 < c" by simp_all
  show ?case
  proof (cases "i = j")
    case True
    have "removeCount (mergedGroup j ops) = 0"
    proof (rule removeCount_absent)
      fix op assume "op \<in> set ops"
      with sp have "j + c \<le> index op" by (simp add: spaced_index)
      with c show "index op \<noteq> j" by simp
    qed
    with True spaced_bound [OF sp] show ?thesis
      by (simp add: removeCount_mergedGroup_Cons)
  next
    case False
    with "3.prems" have "i \<in> index ` set ops" by auto
    with 3 sp False show ?thesis by (simp add: removeCount_mergedGroup_Cons)
  qed
qed

lemma spaced_removeCount_gap:
  "spaced k n ops \<Longrightarrow> op \<in> set ops \<Longrightarrow> i < index op \<Longrightarrow>
   i + removeCount (mergedGroup i ops) \<le> index op"
proof (induction k n ops rule: spaced.induct)
  case (1 k n)
  then show ?case by simp
next
  case (2 k n j ls ops)
  then have sp: "spaced j n ops" by simp
  show ?case
  proof (cases "op \<in> set ops")
    case True
    with 2 sp show ?thesis by (simp add: removeCount_mergedGroup_Cons)
  next
    case False
    with "2.prems" have op: "op = Insert j ls" by simp
    have "removeCount (mergedGroup i ops) = 0"
    proof (rule removeCount_absent)
      fix op' assume "op' \<in> set ops"
      with sp have "j \<le> index op'" by (simp add: spaced_index)
      with "2.prems"(3) op show "index op' \<noteq> i" by simp
    qed
    with "2.prems"(3) op show ?thesis
      by (simp add: removeCount_mergedGroup_Cons)
  qed
next
  case (3 k n j c ops)
  then have sp: "spaced (j + c) n ops" and c: "0 < c" by simp_all
  have ge: "\<And>op'. op' \<in> set ops \<Longrightarrow> j + c \<le> index op'"
    using sp by (simp add: spaced_index)
  show ?case
  proof (cases "op \<in> set ops")
    case True
    show ?thesis
    proof (cases "i = j")
      case same: True
      have "removeCount (mergedGroup j ops) = 0"
      proof (rule removeCount_absent)
        fix op' assume "op' \<in> set ops"
        with ge c show "index op' \<noteq> j" by fastforce
      qed
      with same ge [OF True] show ?thesis
        by (simp add: removeCount_mergedGroup_Cons)
    next
      case False
      with 3 sp True show ?thesis by (simp add: removeCount_mergedGroup_Cons)
    qed
  next
    case False
    with "3.prems" have op: "op = Remove j c" by simp
    have "removeCount (mergedGroup i ops) = 0"
    proof (rule removeCount_absent)
      fix op' assume "op' \<in> set ops"
      with ge have "j \<le> index op'" by fastforce
      with "3.prems"(3) op show "index op' \<noteq> i" by simp
    qed
    with "3.prems"(3) op show ?thesis
      by (simp add: removeCount_mergedGroup_Cons)
  qed
qed

section \<open>The array each step meets\<close>

lemma applyOps_loop_concat:
  "(\<And>i. i \<in> set indices \<Longrightarrow> map_of groups i = Some (G i)) \<Longrightarrow>
   applyOps_loop groups indices = concat (map (\<lambda>i. groupSteps i (G i)) indices)"
  by (induction indices) simp_all

lemma applyOps_concat:
  "applyOps ops =
     concat (map (\<lambda>i. groupSteps i (mergedGroup i ops)) (sortedIndices (groupOps ops)))"
proof -
  have "\<And>i. i \<in> set (sortedIndices (groupOps ops)) \<Longrightarrow>
          map_of (groupOps ops) i = Some (mergedGroup i ops)"
    by (simp add: sortedIndices_groupOps map_of_groupOps)
  then show ?thesis
    by (simp add: applyOps_def Let_def applyOps_loop_concat)
qed

lemma take_take_le: "i \<le> n \<Longrightarrow> take n xs = take n ys \<Longrightarrow> take i xs = take i ys"
  by (metis min.absorb1 take_take)

lemma groupSteps_anchored:
  assumes "groupSteps j g = pre @ s # post"
    and "j + removeCount g \<le> length cur"
    and "take (j + removeCount g) cur = take (j + removeCount g) arr"
  shows "anchored s (runSteps pre cur) arr"
proof -
  have prefix: "take j cur = take j arr"
    using assms(3) by (rule take_take_le [rotated]) simp
  consider (del) "pre = []" "s = DeleteLines j (removeCount g)"
    | (ins) "pre = []" "removeCount g = 0" "s = InsertLines j (insertLines g) (removeCount g)"
    | (both) "pre = [DeleteLines j (removeCount g)]"
        "s = InsertLines j (insertLines g) (removeCount g)"
    using assms(1)
    by (auto simp: groupSteps_def Cons_eq_append_conv split: if_splits)
  then show ?thesis
  proof cases
    case del
    with assms(2,3) show ?thesis by (simp add: runSteps_def)
  next
    case ins
    with assms(2) prefix show ?thesis by (simp add: runSteps_def)
  next
    case both
    have jl: "j \<le> length cur" using assms(2) by simp
    have run: "runSteps pre cur = take j cur @ drop (j + removeCount g) cur"
      by (simp add: both(1) runSteps_def)
    have len: "j \<le> length (runSteps pre cur)"
      unfolding run using jl by simp
    have "take j (runSteps pre cur) = take j cur"
      unfolding run using jl by simp
    then have "take j (runSteps pre cur) = take j arr"
      using prefix by simp
    with len show ?thesis by (simp only: both(2) anchored.simps)
  qed
qed

lemma steps_anchored:
  assumes "sorted_wrt (>) indices"
    and "\<And>i j. i \<in> set indices \<Longrightarrow> j \<in> set indices \<Longrightarrow> i < j \<Longrightarrow> i + removeCount (G i) \<le> j"
    and "\<And>i. i \<in> set indices \<Longrightarrow>
           i + removeCount (G i) \<le> length cur \<and>
           take (i + removeCount (G i)) cur = take (i + removeCount (G i)) arr"
    and "concat (map (\<lambda>i. groupSteps i (G i)) indices) = pre @ s # post"
  shows "anchored s (runSteps pre cur) arr"
  using assms
proof (induction indices arbitrary: cur pre)
  case Nil
  then show ?case by simp
next
  case (Cons j js)
  let ?cur' = "runSteps (groupSteps j (G j)) cur"
  let ?rest = "concat (map (\<lambda>i. groupSteps i (G i)) js)"
  have here: "j + removeCount (G j) \<le> length cur"
    "take (j + removeCount (G j)) cur = take (j + removeCount (G j)) arr"
    using Cons.prems(3) [of j] by simp_all
  from Cons.prems(4) have "groupSteps j (G j) @ ?rest = pre @ s # post" by simp
  then consider (inside) us where "groupSteps j (G j) = pre @ s # us"
    | (later) us where "pre = groupSteps j (G j) @ us" "?rest = us @ s # post"
    by (auto simp: append_eq_append_conv2 append_eq_Cons_conv)
  then show ?case
  proof cases
    case inside
    then show ?thesis using here by (rule groupSteps_anchored)
  next
    case later
    have jlen: "j \<le> length cur" using here(1) by simp
    have cur': "?cur' = take j cur @ insertLines (G j) @ drop (j + removeCount (G j)) cur"
      by (rule runSteps_groupSteps)
    have "anchored s (runSteps us ?cur') arr"
    proof (rule Cons.IH [OF _ _ _ later(2)])
      show "sorted_wrt (>) js" using Cons.prems(1) by simp
    next
      fix i' j' assume "i' \<in> set js" "j' \<in> set js" "i' < j'"
      then show "i' + removeCount (G i') \<le> j'" using Cons.prems(2) by simp
    next
      fix i' assume i': "i' \<in> set js"
      with Cons.prems(1) have "i' < j" by auto
      with i' have le: "i' + removeCount (G i') \<le> j"
        using Cons.prems(2) [of i' j] by simp
      have old: "take (i' + removeCount (G i')) cur = take (i' + removeCount (G i')) arr"
        using Cons.prems(3) [of i'] i' by simp
      have "take (i' + removeCount (G i')) ?cur' = take (i' + removeCount (G i')) (take j cur)"
        using le jlen by (simp add: cur')
      also have "\<dots> = take (i' + removeCount (G i')) cur"
        using le by (simp add: min_def)
      finally have "take (i' + removeCount (G i')) ?cur' = take (i' + removeCount (G i')) arr"
        using old by simp
      moreover have "i' + removeCount (G i') \<le> length ?cur'"
        using le jlen by (simp add: cur')
      ultimately show "i' + removeCount (G i') \<le> length ?cur' \<and>
          take (i' + removeCount (G i')) ?cur' = take (i' + removeCount (G i')) arr"
        by simp
    qed
    with later(1) show ?thesis by (simp add: runSteps_append)
  qed
qed

lemma sortedIndices_descending: "sorted_wrt (>) (sortedIndices (groupOps ops))"
  by (simp add: sortedIndices_groupOps sorted_wrt_rev)

section \<open>An unchanged text\<close>

lemma edit_script_same: "edit_script xs xs = map (Pair Common) xs"
  by (induction xs) simp_all

lemma tag_of_components: "c \<in> set (components s) \<Longrightarrow> tag_of c \<in> fst ` set s"
proof (induction s arbitrary: c)
  case Nil
  then show ?case by simp
next
  case (Cons p rest)
  obtain t v where p: "p = (t, v)" by (cases p)
  show ?case
  proof (cases "components rest")
    case Nil
    with Cons.prems p show ?thesis by (simp add: tag_of_change_of)
  next
    case (Cons c' cs')
    with Cons.IH have IH: "\<And>c. c \<in> set (c' # cs') \<Longrightarrow> tag_of c \<in> fst ` set rest"
      by simp
    from Cons.prems p Cons
    have "tag_of c = t \<or> c \<in> set (c' # cs')"
      by (auto simp: tag_of_change_of tag_of_cvalue_update split: if_splits)
    with IH p show ?thesis by auto
  qed
qed

lemma buildOps_loop_unchanged:
  "(\<And>c. c \<in> set cs \<Longrightarrow> tag_of c = Common) \<Longrightarrow> buildOps_loop cs i [] = []"
proof (induction cs arbitrary: i)
  case Nil
  show ?case by simp
next
  case (Cons part cs)
  then have "tag_of part = Common" by simp
  then have "\<not> added part" "\<not> removed part" by (simp_all add: tag_of_cases)
  with Cons show ?case by (simp add: buildOps_loop_common)
qed

lemma buildOps_same: "buildOps t t = []"
proof -
  have "tag_of c = Common" if "c \<in> set (diffLines t t)" for c
    using that tag_of_components [of c "map (Pair Common) (tokenize t)"]
    by (auto simp: diffLines_def edit_script_same)
  then show ?thesis
    by (simp add: buildOps_def buildOps_loop_unchanged)
qed

text \<open>
  C4. \<^verbatim>\<open>groupOps\<close> holds exactly one group for every index that occurs in the operation
  list, and none for any other index; the group of an index has as \<^verbatim>\<open>removeCount\<close> the sum
  of the remove counts at that index and as \<^verbatim>\<open>insertLines\<close> the concatenation of the
  insert lists at that index in discovery order. A single remove and a single insert at
  the same index give the same group in either input order.
\<close>

theorem groupOps_merges_by_index:
  "distinct (map fst (groupOps ops))
   \<and> map_of (groupOps ops) i =
       (if i \<in> index ` set ops then Some (mergedGroup i ops) else None)
   \<and> groupOps [Remove i c, Insert i ls] = [(i, \<lparr>removeCount = c, insertLines = ls\<rparr>)]
   \<and> groupOps [Insert i ls, Remove i c] = [(i, \<lparr>removeCount = c, insertLines = ls\<rparr>)]"
proof -
  have "groupOps [Remove i c, Insert i ls] = [(i, \<lparr>removeCount = c, insertLines = ls\<rparr>)]"
    by (simp add: groupOps_def groupOps_step_def)
  moreover
  have "groupOps [Insert i ls, Remove i c] = [(i, \<lparr>removeCount = c, insertLines = ls\<rparr>)]"
    by (simp add: groupOps_def groupOps_step_def)
  ultimately show ?thesis
    using distinct_groupOps [of ops] map_of_groupOps [of ops i] by simp
qed

text \<open>
  On the arrays \<^verbatim>\<open>splitLines\<close> returns (a text split on the line separator, a trailing
  empty element dropped), the operations of \<^verbatim>\<open>buildOps\<close>, grouped and applied in descending
  index order, turn the lines of the original text into the lines of the target text.
\<close>

lemma applyOpsArray_buildOps_splitLines:
  "applyOpsArray (buildOps originalText targetText) (splitLines originalText) =
     splitLines targetText"
  using applyOpsArray_buildOps_loop [of "[]" 0 "diffLines originalText targetText"]
  by (simp add: buildOps_def oldLines_diffLines newLines_diffLines)

text \<open>
  C1. The operation list of \<^verbatim>\<open>buildOps\<close>, grouped and applied in descending index order to
  the line array obtained by splitting the original text on the line separator, is to
  reconstruct the line array of the target text. \<^verbatim>\<open>patch\<close> hands \<^verbatim>\<open>applyOps\<close> the lines of the
  page, which are that bare split, while \<^verbatim>\<open>buildOps\<close> counts lines with \<^verbatim>\<open>splitLines\<close>. For the
  page of the two lines \<^verbatim>\<open>"a"\<close> and \<^verbatim>\<open>""\<close>, whose text is \<^verbatim>\<open>"a\n"\<close>, and the target \<^verbatim>\<open>"a"\<close>, the
  operations are \<^verbatim>\<open>Remove{0,1}\<close> and \<^verbatim>\<open>Insert{1,["a"]}\<close>; applied to the page's lines they leave
  \<^verbatim>\<open>["a", ""]\<close>, not \<^verbatim>\<open>["a"]\<close>, and \<^verbatim>\<open>patch\<close>, reading back the page the array model gives, ends
  with the verification error.
\<close>

theorem applyOps_trailing_empty_line_not_reconstructed:
  "linesToText (extractLines (demoPage 1 [''a'', []])) = ''a'' @ [NL] \<and>
   map line_text (extractLines (demoPage 1 [''a'', []])) = split_nl (''a'' @ [NL]) \<and>
   buildOps (''a'' @ [NL]) ''a'' = [Remove 0 1, Insert 1 [''a'']] \<and>
   applyOpsArray (buildOps (''a'' @ [NL]) ''a'') (split_nl (''a'' @ [NL])) = [''a'', []] \<and>
   split_nl ''a'' = [''a''] \<and>
   splitLines ''a'' = [''a''] \<and>
   join_nl [''a'', []] \<noteq> ''a'' \<and>
   patch
     (demoWorld
        (\<lambda>n. if n = 0 then Some (demoPage 1 [''a'', []])
             else Some (demoPage 2
                    (applyOpsArray (buildOps (''a'' @ [NL]) ''a'') (split_nl (''a'' @ [NL])))))
        None)
     ''T'' ''a'' (demoOpts False False) [] =
     (Inl VerificationFailed,
      [ReadJson ''T'', NewPage, Goto ''T'', WaitForSelector, Click,
       Slow (InsertLines 1 [''a''] 0), Slow (DeleteLines 0 1), ClosePage, ReadJson ''T''])"
  by code_simp

text \<open>
  C3. For the original text \<^verbatim>\<open>"a\nb\nc"\<close> and the target \<^verbatim>\<open>"a\nx\nc"\<close>, \<^verbatim>\<open>buildOps\<close> emits
  exactly \<^verbatim>\<open>Remove{index:1,count:1}\<close> and \<^verbatim>\<open>Insert{index:2,lines:["x"]}\<close> (the removed run has
  moved the cursor past the removed line), and applying them yields \<^verbatim>\<open>"a\nx\nc"\<close>.
\<close>

theorem buildOps_replace_line:
  "buildOps (''a'' @ [NL] @ ''b'' @ [NL] @ ''c'') (''a'' @ [NL] @ ''x'' @ [NL] @ ''c'') =
     [Remove 1 1, Insert 2 [''x'']] \<and>
   join_nl (applyOpsArray
      (buildOps (''a'' @ [NL] @ ''b'' @ [NL] @ ''c'') (''a'' @ [NL] @ ''x'' @ [NL] @ ''c''))
      [''a'', ''b'', ''c'']) = ''a'' @ [NL] @ ''x'' @ [NL] @ ''c''"
  by code_simp

text \<open>The operation list of the scenario as the spec words it is not the one emitted.\<close>

theorem buildOps_replace_line_counterexample:
  "buildOps (''a'' @ [NL] @ ''b'' @ [NL] @ ''c'') (''a'' @ [NL] @ ''x'' @ [NL] @ ''c'') \<noteq>
     [Remove 1 1, Insert 1 [''x'']]"
  by code_simp

text \<open>
  Whatever alignment the diff reports, no run sequence makes \<^verbatim>\<open>buildOps\<close> emit a removal
  at index 1 followed by an insertion at index 1: the removal has advanced the cursor.
\<close>

lemma buildOps_loop_never_remove_then_insert_at_1:
  "buildOps_loop cs 0 [] \<noteq> [Remove 1 1, Insert 1 ls]"
proof
  assume "buildOps_loop cs 0 [] = [Remove 1 1, Insert 1 ls]"
  with spaced_buildOps_loop [of 0 cs]
  have "spaced 0 (length (oldLines cs)) [Remove 1 1, Insert 1 ls]" by simp
  then show False by simp
qed

text \<open>
  C2. For the operation list \<open>ops\<close> of \<^verbatim>\<open>buildOps\<close> and a line array at least as long as the
  original text has lines: the indices \<^verbatim>\<open>applyOps\<close> sorts are strictly descending and are
  the indices of the operations, each with its merged group; the steps \<^verbatim>\<open>applyOps\<close> issues
  are the steps of these groups in that order; and every step it issues, run after the
  steps before it, meets an array that still holds the original lines up to the lines it
  deletes or the place it inserts at.
\<close>

theorem applyOps_descending_indices_stay_valid:
  assumes "length (splitLines originalText) \<le> length arr"
  shows "sorted_wrt (>) (sortedIndices (groupOps (buildOps originalText newText))) \<and>
    set (sortedIndices (groupOps (buildOps originalText newText))) =
      index ` set (buildOps originalText newText) \<and>
    (\<forall>i \<in> set (sortedIndices (groupOps (buildOps originalText newText))).
       map_of (groupOps (buildOps originalText newText)) i =
         Some (mergedGroup i (buildOps originalText newText))) \<and>
    applyOps (buildOps originalText newText) =
      concat (map (\<lambda>i. groupSteps i (mergedGroup i (buildOps originalText newText)))
                (sortedIndices (groupOps (buildOps originalText newText)))) \<and>
    (\<forall>pre s post. applyOps (buildOps originalText newText) = pre @ s # post \<longrightarrow>
       anchored s (runSteps pre arr) arr)"
proof -
  let ?ops = "buildOps originalText newText"
  let ?groups = "groupOps ?ops"
  let ?indices = "sortedIndices ?groups"
  let ?n = "length (splitLines originalText)"
  have sp: "spaced 0 ?n ?ops"
    using spaced_buildOps_loop [of 0 "diffLines originalText newText"]
    by (simp add: buildOps_def oldLines_diffLines)
  have keys: "set ?indices = index ` set ?ops"
    by (simp add: sortedIndices_groupOps)
  have hit: "\<And>i. i \<in> set ?indices \<Longrightarrow> map_of ?groups i = Some (mergedGroup i ?ops)"
    using keys by (simp add: map_of_groupOps)
  have desc: "sorted_wrt (>) ?indices" by (rule sortedIndices_descending)
  have steps: "applyOps ?ops = concat (map (\<lambda>i. groupSteps i (mergedGroup i ?ops)) ?indices)"
    by (rule applyOps_concat)
  have valid: "anchored s (runSteps pre arr) arr"
    if split: "applyOps ?ops = pre @ s # post" for pre s post
  proof (rule steps_anchored [OF desc])
    fix i' j' assume "i' \<in> set ?indices" "j' \<in> set ?indices" "i' < j'"
    then obtain op where "op \<in> set ?ops" "index op = j'" using keys by auto
    with sp \<open>i' < j'\<close> show "i' + removeCount (mergedGroup i' ?ops) \<le> j'"
      using spaced_removeCount_gap [of 0 ?n ?ops op i'] by simp
  next
    fix i' assume "i' \<in> set ?indices"
    then have "i' \<in> index ` set ?ops" using keys by simp
    with sp have "i' + removeCount (mergedGroup i' ?ops) \<le> ?n"
      by (rule spaced_removeCount_bound)
    with assms show "i' + removeCount (mergedGroup i' ?ops) \<le> length arr \<and>
        take (i' + removeCount (mergedGroup i' ?ops)) arr =
          take (i' + removeCount (mergedGroup i' ?ops)) arr"
      by simp
  next
    show "concat (map (\<lambda>i. groupSteps i (mergedGroup i ?ops)) ?indices) = pre @ s # post"
      using split steps by simp
  qed
  from desc keys hit steps valid show ?thesis by blast
qed

theorem applyOps_descending_indices_stay_valid_witness:
  "length (splitLines (''a'' @ [NL] @ ''b'' @ [NL] @ ''c'')) \<le> length [''a'', ''b'', ''c''] \<and>
   applyOps (buildOps (''a'' @ [NL] @ ''b'' @ [NL] @ ''c'') (''a'' @ [NL] @ ''x'' @ [NL] @ ''c'')) =
     [InsertLines 2 [''x''] 0] @ DeleteLines 1 1 # [] \<and>
   runSteps [InsertLines 2 [''x''] 0] [''a'', ''b'', ''c''] = [''a'', ''b'', ''x'', ''c''] \<and>
   anchored (DeleteLines 1 1) (runSteps [InsertLines 2 [''x''] 0] [''a'', ''b'', ''c''])
     [''a'', ''b'', ''c''] \<and>
   sortedIndices
     (groupOps (buildOps (''a'' @ [NL] @ ''b'' @ [NL] @ ''c'') (''a'' @ [NL] @ ''x'' @ [NL] @ ''c''))) =
     [2, 1]"
proof -
  have len: "length (splitLines (''a'' @ [NL] @ ''b'' @ [NL] @ ''c'')) \<le> length [''a'', ''b'', ''c'']"
    by code_simp
  have steps: "applyOps
      (buildOps (''a'' @ [NL] @ ''b'' @ [NL] @ ''c'') (''a'' @ [NL] @ ''x'' @ [NL] @ ''c'')) =
      [InsertLines 2 [''x''] 0] @ DeleteLines 1 1 # []"
    by code_simp
  have run: "runSteps [InsertLines 2 [''x''] 0] [''a'', ''b'', ''c''] = [''a'', ''b'', ''x'', ''c'']"
    by code_simp
  have indices: "sortedIndices
     (groupOps (buildOps (''a'' @ [NL] @ ''b'' @ [NL] @ ''c'') (''a'' @ [NL] @ ''x'' @ [NL] @ ''c''))) =
     [2, 1]"
    by code_simp
  from applyOps_descending_indices_stay_valid [OF len, of "''a'' @ [NL] @ ''x'' @ [NL] @ ''c''"] steps
  have "anchored (DeleteLines 1 1) (runSteps [InsertLines 2 [''x''] 0] [''a'', ''b'', ''c''])
          [''a'', ''b'', ''c'']"
    by blast
  with len steps run indices show ?thesis by blast
qed

section \<open>The fast path on the host document\<close>












section \<open>Falling back to the slow path\<close>























lemma readJson_log:
  "hasContext w \<Longrightarrow> snd (readJson w t log) = log @ [ReadJson t]"
  by (simp add: readJson_def getContext_def bindIO_def ret_def)








section \<open>patch: dry run, staleness check, unchanged text\<close>

lemmas io_defs =
  bindIO_def ret_def throw_def perform_def getContext_def readJson_def parseFirstPatch_def
  stalenessCheck_def isRead_def

text \<open>
  C6. With \<^verbatim>\<open>dryRun\<close> set, when the page is read, the diff parses and its first patch applies
  to the original text under the fuzz factor, \<^verbatim>\<open>patch\<close> returns that computed text, and the
  one thing it has done is the initial read of the page.
\<close>

theorem patch_dryRun_returns_target_text:
  assumes "hasContext w"
    and "responses w 0 = Some pageJson"
    and "parsePatch w diffText = Some (p # ps)"
    and "applyPatch w (linesToText (extractLines pageJson)) p
           (case fuzz opts of None \<Rightarrow> 0 | Some f \<Rightarrow> f) = Some newText"
    and "dryRun opts"
  shows "patch w pageTitle diffText opts [] = (Inr (Text newText), [ReadJson pageTitle])"
  using assms by (simp add: patch_def io_defs Let_def)

theorem patch_dryRun_returns_target_text_witness:
  "patch (demoWorld (\<lambda>n. Some (demoPage 1 [''a'', ''b''])) None) ''T'' (''a'' @ [NL] @ ''x'')
     (demoOpts False True) [] = (Inr (Text (''a'' @ [NL] @ ''x'')), [ReadJson ''T''])"
  using patch_dryRun_returns_target_text
    [of "demoWorld (\<lambda>n. Some (demoPage 1 [''a'', ''b''])) None" "demoPage 1 [''a'', ''b'']"
        "''a'' @ [NL] @ ''x''" "''a'' @ [NL] @ ''x''" "[]" "demoOpts False True"
        "''a'' @ [NL] @ ''x''" "''T''"]
  by (simp add: demoWorld_def demoOpts_def)

text \<open>
  C7. With the staleness check enabled and no dry run, when the page read again right
  before the mutation carries another revision token than the one of the initial read,
  \<^verbatim>\<open>patch\<close> fails with \<open>ConcurrentModification\<close>, and the two reads are all it has done: no
  page was opened and no step of either path was issued.
\<close>

theorem patch_stale_page_fails_before_mutation:
  assumes "hasContext w"
    and "responses w 0 = Some pageJson"
    and "parsePatch w diffText = Some (p # ps)"
    and "applyPatch w (linesToText (extractLines pageJson)) p
           (case fuzz opts of None \<Rightarrow> 0 | Some f \<Rightarrow> f) = Some newText"
    and "\<not> dryRun opts"
    and "checkUpdated opts"
    and "responses w 1 = Some latest"
    and "updated latest \<noteq> updated pageJson"
  shows "patch w pageTitle diffText opts [] =
           (Inl ConcurrentModification, [ReadJson pageTitle, ReadJson pageTitle])"
  using assms by (simp add: patch_def io_defs Let_def)

theorem patch_stale_page_fails_before_mutation_witness:
  "patch (demoWorld (\<lambda>n. if n = 0 then Some (demoPage 1 [''a'', ''b''])
                          else Some (demoPage 2 [''a'', ''b''])) None)
     ''T'' (''a'' @ [NL] @ ''x'') (demoOpts True False) [] =
     (Inl ConcurrentModification, [ReadJson ''T'', ReadJson ''T''])"
  using patch_stale_page_fails_before_mutation
    [of "demoWorld (\<lambda>n. if n = 0 then Some (demoPage 1 [''a'', ''b''])
                          else Some (demoPage 2 [''a'', ''b''])) None"
        "demoPage 1 [''a'', ''b'']" "''a'' @ [NL] @ ''x''" "''a'' @ [NL] @ ''x''" "[]"
        "demoOpts True False" "''a'' @ [NL] @ ''x''" "demoPage 2 [''a'', ''b'']" "''T''"]
  by (simp add: demoWorld_def demoOpts_def demoPage_def)

text \<open>
  C10. With \<^verbatim>\<open>dryRun\<close> set, whatever the other options and whatever the page does, \<^verbatim>\<open>patch\<close>
  never fails with \<open>ConcurrentModification\<close> and reads the page at most once: the dry run
  returns before the staleness check.
\<close>

theorem patch_dryRun_before_staleness_check:
  assumes "dryRun opts"
  shows "fst (patch w pageTitle diffText opts []) \<noteq> Inl ConcurrentModification \<and>
         (snd (patch w pageTitle diffText opts []) = [] \<or>
          snd (patch w pageTitle diffText opts []) = [ReadJson pageTitle])"
  using assms
  by (simp add: patch_def io_defs Let_def split: option.split list.split)

theorem patch_dryRun_before_staleness_check_witness:
  "patch (demoWorld (\<lambda>n. if n = 0 then Some (demoPage 1 [''a'', ''b''])
                          else Some (demoPage 2 [''a'', ''b''])) None)
     ''T'' (''a'' @ [NL] @ ''x'') (demoOpts True True) [] =
     (Inr (Text (''a'' @ [NL] @ ''x'')), [ReadJson ''T'']) \<and>
   fst (patch (demoWorld (\<lambda>n. if n = 0 then Some (demoPage 1 [''a'', ''b''])
                          else Some (demoPage 2 [''a'', ''b''])) None)
     ''T'' (''a'' @ [NL] @ ''x'') (demoOpts True True) []) \<noteq> Inl ConcurrentModification"
proof -
  have dry: "dryRun (demoOpts True True)" by (simp add: demoOpts_def)
  have run: "patch (demoWorld (\<lambda>n. if n = 0 then Some (demoPage 1 [''a'', ''b''])
                          else Some (demoPage 2 [''a'', ''b''])) None)
     ''T'' (''a'' @ [NL] @ ''x'') (demoOpts True True) [] =
     (Inr (Text (''a'' @ [NL] @ ''x'')), [ReadJson ''T''])"
    by (simp add: patch_def io_defs Let_def demoWorld_def demoOpts_def)
  from patch_dryRun_before_staleness_check [OF dry] run show ?thesis by blast
qed

text \<open>
  C5. \<^verbatim>\<open>buildOps\<close> of a text and itself is the empty list. When the text computed from the
  diff equals the original text and no dry run is asked for, \<^verbatim>\<open>patch\<close> does nothing but
  read the page: it returns void after the initial read, or after the second read of a
  staleness check that passes, and in every case its actions are reads only.
\<close>

theorem patch_unchanged_text_no_mutation:
  assumes "hasContext w"
    and "responses w 0 = Some pageJson"
    and "parsePatch w diffText = Some (p # ps)"
    and "applyPatch w (linesToText (extractLines pageJson)) p
           (case fuzz opts of None \<Rightarrow> 0 | Some f \<Rightarrow> f) = Some (linesToText (extractLines pageJson))"
    and "\<not> dryRun opts"
  shows "buildOps originalText originalText = [] \<and>
    list_all isRead (snd (patch w pageTitle diffText opts [])) \<and>
    (if checkUpdated opts then
       (case responses w 1 of
          None \<Rightarrow> patch w pageTitle diffText opts [] =
                   (Inl RequestFailed, [ReadJson pageTitle, ReadJson pageTitle])
        | Some latest \<Rightarrow>
            if updated latest = updated pageJson
            then patch w pageTitle diffText opts [] =
                   (Inr Void, [ReadJson pageTitle, ReadJson pageTitle])
            else patch w pageTitle diffText opts [] =
                   (Inl ConcurrentModification, [ReadJson pageTitle, ReadJson pageTitle]))
     else patch w pageTitle diffText opts [] = (Inr Void, [ReadJson pageTitle]))"
  using assms
  by (simp add: patch_def io_defs Let_def buildOps_same split: option.split)

theorem patch_unchanged_text_no_mutation_witness:
  "patch (demoWorld (\<lambda>n. Some (demoPage 1 [''a'', ''b''])) None) ''T'' (''a'' @ [NL] @ ''b'')
     (demoOpts False False) [] = (Inr Void, [ReadJson ''T''])"
  using patch_unchanged_text_no_mutation
    [of "demoWorld (\<lambda>n. Some (demoPage 1 [''a'', ''b''])) None" "demoPage 1 [''a'', ''b'']"
        "''a'' @ [NL] @ ''b''" "''a'' @ [NL] @ ''b''" "[]" "demoOpts False False" "[]" "''T''"]
  by (simp add: demoWorld_def demoOpts_def demoPage_def extractLines_def linesToText_def)



end
